theory Spec2Isabelle
  imports Main "HOL-Library.Code_Target_Numeral"
begin

section \<open>Path-ORAM client and server: a shallow embedding\<close>

text \<open>
  The development follows \<^verbatim>\<open>server.py\<close> (Block, Bucket, Server) and \<^verbatim>\<open>client.py\<close>
  (deserialize_block, Client). Python \<^verbatim>\<open>bytes\<close> are lists of \<^typ>\<open>char\<close> (one char is one
  byte). A Python \<^verbatim>\<open>str\<close> is represented by its UTF-8 encoding, so \<^verbatim>\<open>encode('utf-8')\<close> is
  the identity and \<^verbatim>\<open>decode('utf-8')\<close> succeeds exactly on well-formed UTF-8. Every Python
  exception is a value of \<open>error\<close>; a function that can raise after it has mutated
  the client or the server returns the state it left behind together with the error.
\<close>

subsection \<open>Errors\<close>

datatype error =
    KeyError
  | IndexError
  | InvalidTag
  | UnicodeDecodeError
  | OverflowError
  | ValueError
  | ZeroDivisionError

subsection \<open>Blocks (server.py, class Block)\<close>

text \<open>
  The attribute \<^verbatim>\<open>metadata\<close> repeats the other four attributes and is never read; it is
  left out. Addresses are Python integers. Leaf indices are naturals: every leaf the
  program stores comes from \<^verbatim>\<open>random.randint(0, ...)\<close>, from \<^verbatim>\<open>int.from_bytes\<close> or is the
  literal 0.
\<close>

record block =
  blk_a :: int
  blk_x :: nat
  blk_data :: string
  dummy_flag :: bool

definition Block :: "int \<Rightarrow> nat \<Rightarrow> string \<Rightarrow> bool \<Rightarrow> block" where
  "Block addr leaf d f = \<lparr>blk_a = addr, blk_x = leaf, blk_data = d, dummy_flag = f\<rparr>"

text \<open>\<^verbatim>\<open>n.to_bytes(4, 'big')\<close>: raises OverflowError outside \<open>[0, 2^32)\<close>.\<close>

definition to_bytes4 :: "int \<Rightarrow> error + string" where
  "to_bytes4 n =
     (if 0 \<le> n \<and> n < 4294967296
      then Inr (map (\<lambda>k. char_of (nat n div 256 ^ k)) [3, 2, 1, 0])
      else Inl OverflowError)"

text \<open>\<^verbatim>\<open>int.from_bytes(bs, 'big')\<close>; the empty byte string gives 0.\<close>

definition from_bytes :: "string \<Rightarrow> nat" where
  "from_bytes bs = foldl (\<lambda>acc c. acc * 256 + of_char c) 0 bs"

definition serialize :: "block \<Rightarrow> error + string" where
  "serialize b =
     (let flag = (if dummy_flag b then ''1'' else ''0'') in
      case to_bytes4 (blk_a b) of
        Inl e \<Rightarrow> Inl e
      | Inr ab \<Rightarrow>
          (case to_bytes4 (int (blk_x b)) of
             Inl e \<Rightarrow> Inl e
           | Inr xb \<Rightarrow> Inr (ab @ xb @ blk_data b @ flag)))"

subsection \<open>Strict UTF-8 decoding\<close>

text \<open>
  \<^verbatim>\<open>bytes.decode('utf-8')\<close> accepts exactly the well-formed sequences of RFC 3629 (no
  overlong forms, no surrogates, nothing above U+10FFFF). \<open>cont\<close> recognises a
  continuation byte.
\<close>

definition byte_in :: "nat \<Rightarrow> nat \<Rightarrow> char \<Rightarrow> bool" where
  "byte_in lo hi c = (lo \<le> (of_char c :: nat) \<and> (of_char c :: nat) \<le> hi)"

definition cont :: "char \<Rightarrow> bool" where
  "cont c = byte_in 128 191 c"

fun utf8_valid :: "string \<Rightarrow> bool" where
  "utf8_valid [] = True"
| "utf8_valid (c # cs) =
     (if byte_in 0 127 c then utf8_valid cs
      else if byte_in 194 223 c then
        (case cs of c1 # r \<Rightarrow> cont c1 \<and> utf8_valid r | _ \<Rightarrow> False)
      else if byte_in 224 239 c then
        (case cs of
           c1 # c2 # r \<Rightarrow>
             (if of_char c = (224::nat) then byte_in 160 191 c1
              else if of_char c = (237::nat) then byte_in 128 159 c1
              else cont c1) \<and> cont c2 \<and> utf8_valid r
         | _ \<Rightarrow> False)
      else if byte_in 240 244 c then
        (case cs of
           c1 # c2 # c3 # r \<Rightarrow>
             (if of_char c = (240::nat) then byte_in 144 191 c1
              else if of_char c = (244::nat) then byte_in 128 143 c1
              else cont c1) \<and> cont c2 \<and> cont c3 \<and> utf8_valid r
         | _ \<Rightarrow> False)
      else False)"

definition decode_utf8 :: "string \<Rightarrow> error + string" where
  "decode_utf8 bs = (if utf8_valid bs then Inr bs else Inl UnicodeDecodeError)"

subsection \<open>deserialize_block (client.py)\<close>

text \<open>Python slices never raise: a slice beyond the end is shorter or empty.\<close>

definition slice :: "nat \<Rightarrow> nat \<Rightarrow> string \<Rightarrow> string" where
  "slice i j bs = take (j - i) (drop i bs)"

definition deserialize_block :: "string \<Rightarrow> error + block" where
  "deserialize_block block_data =
     (let addr = from_bytes (slice 0 4 block_data);
          leaf = from_bytes (slice 4 8 block_data)
      in case decode_utf8 (slice 8 12 block_data) of
           Inl e \<Rightarrow> Inl e
         | Inr d \<Rightarrow> Inr (Block (int addr) leaf d (slice 12 13 block_data = ''1'')))"

subsection \<open>The bucket payload: join and split on the separator\<close>

text \<open>\<^verbatim>\<open>b"||".join(pieces)\<close>.\<close>

fun join_sep :: "string list \<Rightarrow> string" where
  "join_sep [] = []"
| "join_sep [p] = p"
| "join_sep (p # q # ps) = p @ ''||'' @ join_sep (q # ps)"

text \<open>
  \<^verbatim>\<open>payload.split(b"||")\<close>: the separator is searched from the left, occurrences do not
  overlap, and the result always has at least one piece. \<open>cur\<close> is the piece being read.
\<close>

fun split_from :: "string \<Rightarrow> string \<Rightarrow> string list" where
  "split_from cur [] = [cur]"
| "split_from cur [c] = [cur @ [c]]"
| "split_from cur (c # d # rest) =
     (if c = CHR ''|'' \<and> d = CHR ''|'' then cur # split_from [] rest
      else split_from (cur @ [c]) (d # rest))"

definition split_sep :: "string \<Rightarrow> string list" where
  "split_sep bs = split_from [] bs"

text \<open>A list comprehension whose body can raise: the first exception ends it.\<close>

fun map_result :: "('a \<Rightarrow> error + 'b) \<Rightarrow> 'a list \<Rightarrow> error + 'b list" where
  "map_result f [] = Inr []"
| "map_result f (v # vs) =
     (case f v of
        Inl e \<Rightarrow> Inl e
      | Inr w \<Rightarrow> (case map_result f vs of Inl e \<Rightarrow> Inl e | Inr ws \<Rightarrow> Inr (w # ws)))"

text \<open>
  The two inline expressions of client.py that the specification calls the bucket codec:
  \<^verbatim>\<open>b"||".join([block.serialize() for block in blocks])\<close> and
  \<^verbatim>\<open>[deserialize_block(block) for block in payload.split(b"||")]\<close>.
\<close>

definition encode_bucket :: "block list \<Rightarrow> error + string" where
  "encode_bucket blocks =
     (case map_result serialize blocks of Inl e \<Rightarrow> Inl e | Inr ps \<Rightarrow> Inr (join_sep ps))"

definition decode_bucket :: "string \<Rightarrow> error + block list" where
  "decode_bucket payload = map_result deserialize_block (split_sep payload)"

subsection \<open>Authenticated encryption (AESGCM of the cryptography package)\<close>

text \<open>
  The library is modelled as an ideal authenticated cipher: a ciphertext records what was
  sealed, decryption returns the plaintext exactly when key, nonce and associated data are
  those of the encryption, and raises InvalidTag on every other ciphertext. The byte
  length of a ciphertext is the length of the plaintext plus the 16-byte tag.
\<close>

type_synonym key = string
type_synonym nonce = string

datatype ciphertext = Sealed key nonce string string

definition encrypt :: "key \<Rightarrow> nonce \<Rightarrow> string \<Rightarrow> string \<Rightarrow> ciphertext" where
  "encrypt k n pt aad = Sealed k n aad pt"

fun decrypt :: "key \<Rightarrow> nonce \<Rightarrow> ciphertext \<Rightarrow> string \<Rightarrow> error + string" where
  "decrypt k n (Sealed k' n' aad' pt) aad =
     (if k' = k \<and> n' = n \<and> aad' = aad then Inr pt else Inl InvalidTag)"

definition tag_len :: nat where
  "tag_len = 16"

fun ct_length :: "ciphertext \<Rightarrow> nat" where
  "ct_length (Sealed k n aad pt) = length pt + tag_len"

subsection \<open>Associated data: the string bucket_i\<close>

definition digit_char :: "nat \<Rightarrow> char" where
  "digit_char d = char_of (48 + d)"

fun str_nat :: "nat \<Rightarrow> string" where
  "str_nat n = (if n < 10 then [digit_char n] else str_nat (n div 10) @ [digit_char (n mod 10)])"

declare str_nat.simps [simp del]

definition bucket_aad :: "nat \<Rightarrow> string" where
  "bucket_aad i = ''bucket_'' @ str_nat i"

subsection \<open>Server and client state\<close>

record server =
  srv_N :: nat
  srv_Z :: nat
  num_of_buckets :: nat
  srv_L :: nat
  tree :: "ciphertext list"

text \<open>
  \<^verbatim>\<open>aesgcm_ciphers[i]\<close> is the cipher object of \<^verbatim>\<open>keys[i]\<close>; the two lists are one here.
\<close>

record client =
  stash :: "block list"
  position_map :: "int \<rightharpoonup> nat"
  keys :: "key list"
  nonces :: "nonce list"

subsection \<open>Tree geometry (server.py, Server.__init__)\<close>

text \<open>
  \<^verbatim>\<open>math.ceil(math.log(n, 2))\<close> is taken exactly, as the least \<open>k\<close> with \<open>n \<le> 2 ^ k\<close>
  (the floating-point quotient of Python rounds to the same integer for every bucket
  count below \<open>2 ^ 29\<close>; at \<open>2 ^ 29\<close> buckets Python gets a height one larger), and
  \<^verbatim>\<open>int(N / Z)\<close> is \<open>N div Z\<close> (the floating-point quotient of Python is exact for
  \<open>N\<close> up to \<open>2 ^ 53\<close>). No statement below uses more than 15 buckets.
\<close>

fun ceil_log2 :: "nat \<Rightarrow> nat" where
  "ceil_log2 n = (if n \<le> 1 then 0 else Suc (ceil_log2 ((n + 1) div 2)))"

declare ceil_log2.simps [simp del]

definition dummy_block :: "nat \<Rightarrow> block" where
  "dummy_block num_of_blocks = Block (int num_of_blocks + 1) 0 ''----'' True"

text \<open>The attribute \<^verbatim>\<open>blocks\<close> of \<^verbatim>\<open>Bucket(blocks, bucket_size, num_of_blocks, empty)\<close>.\<close>

definition Bucket :: "block list \<Rightarrow> nat \<Rightarrow> nat \<Rightarrow> bool \<Rightarrow> block list" where
  "Bucket blocks bucket_size num_of_blocks is_empty =
     (if is_empty then replicate bucket_size (dummy_block num_of_blocks) else blocks)"

subsection \<open>Construction: Client(Server(N, Z))\<close>

text \<open>
  The server's constructor fills its tree with plaintext Bucket objects, and the client's
  constructor overwrites every slot with a ciphertext, so the two are one function here
  and the tree holds ciphertexts only. \<open>gen_key\<close>, \<open>gen_nonce\<close> and \<open>rand_leaf\<close> stand for
  \<^verbatim>\<open>AESGCM.generate_key\<close>, \<^verbatim>\<open>os.urandom\<close> and \<^verbatim>\<open>random.randint\<close>. With fewer than two
  buckets \<^verbatim>\<open>math.log\<close> or \<^verbatim>\<open>random.randint\<close> raises ValueError.
\<close>

definition Client_init ::
  "nat \<Rightarrow> nat \<Rightarrow> (nat \<Rightarrow> key) \<Rightarrow> (nat \<Rightarrow> nonce) \<Rightarrow> (nat \<Rightarrow> nat) \<Rightarrow> error + client \<times> server" where
  "Client_init n z gen_key gen_nonce rand_leaf =
     (if z = 0 then Inl ZeroDivisionError
      else let nb = n div z in
        if nb < 2 then Inl ValueError
        else
          (case encode_bucket (Bucket [] z n True) of
             Inl e \<Rightarrow> Inl e
           | Inr data_to_encrypt \<Rightarrow>
               Inr (\<lparr>stash = [],
                     position_map =
                       (\<lambda>addr. if 0 \<le> addr \<and> addr < int n then Some (rand_leaf (nat addr))
                                else None),
                     keys = map gen_key [0..<nb],
                     nonces = map gen_nonce [0..<nb]\<rparr>,
                    \<lparr>srv_N = n, srv_Z = z, num_of_buckets = nb,
                     srv_L = ceil_log2 nb - 1,
                     tree = map (\<lambda>i. encrypt (gen_key i) (gen_nonce i) data_to_encrypt
                                        (bucket_aad i)) [0..<nb]\<rparr>)))"

subsection \<open>Paths\<close>

text \<open>The loop of get_path_leaf_to_root: from node \<open>i\<close> up to the root.\<close>

fun path_up :: "nat \<Rightarrow> nat list" where
  "path_up i = i # (if i \<noteq> 0 then path_up ((i - 1) div 2) else [])"

declare path_up.simps [simp del]

definition get_path_leaf_to_root :: "nat \<Rightarrow> nat \<Rightarrow> nat list" where
  "get_path_leaf_to_root leaf_index l =
     (let total_nodes = 2 ^ (l + 1) - 1;
          first_leaf_index = total_nodes - 2 ^ l
      in path_up (first_leaf_index + leaf_index))"

text \<open>\<^verbatim>\<open>str(bin(x))[2:]\<close> and \<^verbatim>\<open>zfill\<close>.\<close>

fun bin_digits :: "nat \<Rightarrow> string" where
  "bin_digits n =
     (if n < 2 then [digit_char n] else bin_digits (n div 2) @ [digit_char (n mod 2)])"

declare bin_digits.simps [simp del]

definition zfill :: "nat \<Rightarrow> string \<Rightarrow> string" where
  "zfill w s = replicate (w - length s) CHR ''0'' @ s"

subsection \<open>Access, phase 1: reading the path\<close>

text \<open>
  One bucket: index the tree, the ciphers and the nonces (IndexError), decrypt
  (InvalidTag), split and deserialize (UnicodeDecodeError). The stash is extended only
  after the whole list has been built.
\<close>

definition read_bucket :: "client \<Rightarrow> server \<Rightarrow> nat \<Rightarrow> error + block list" where
  "read_bucket c s i =
     (if length (tree s) \<le> i \<or> length (keys c) \<le> i \<or> length (nonces c) \<le> i
      then Inl IndexError
      else
        (case decrypt (keys c ! i) (nonces c ! i) (tree s ! i) (bucket_aad i) of
           Inl e \<Rightarrow> Inl e
         | Inr decrypted_bucket \<Rightarrow> decode_bucket decrypted_bucket))"

text \<open>
  The loop over the bits followed by the read of the last node. The result is the error,
  if any, and the stash as the loop left it.
\<close>

fun read_path ::
  "client \<Rightarrow> server \<Rightarrow> string \<Rightarrow> nat \<Rightarrow> block list \<Rightarrow> (error + unit) \<times> block list" where
  "read_path c s [] i st =
     (case read_bucket c s i of
        Inl e \<Rightarrow> (Inl e, st)
      | Inr blocks \<Rightarrow> (Inr (), st @ blocks))"
| "read_path c s (b # bits) i st =
     (case read_bucket c s i of
        Inl e \<Rightarrow> (Inl e, st)
      | Inr blocks \<Rightarrow>
          read_path c s bits (if b = CHR ''0'' then 2 * i + 1 else 2 * i + 2) (st @ blocks))"

subsection \<open>Access, phase 2: locating and updating block a\<close>

text \<open>The index of the first block of the stash with address \<open>addr\<close>, if there is one.\<close>

fun block_index :: "int \<Rightarrow> block list \<Rightarrow> nat option" where
  "block_index addr [] = None"
| "block_index addr (b # bs) =
     (if blk_a b = addr then Some 0 else map_option Suc (block_index addr bs))"

text \<open>
  \<^verbatim>\<open>self.stash.remove(self.stash[block_idx])\<close>: blocks are compared by identity, and no
  object is in the stash twice, so the call removes the position it read. With
  \<^verbatim>\<open>block_idx = -1\<close> that position is the last one.
\<close>

definition remove_at :: "nat \<Rightarrow> 'a list \<Rightarrow> 'a list" where
  "remove_at i xs = take i xs @ drop (Suc i) xs"

definition update_stash ::
  "string \<Rightarrow> int \<Rightarrow> string \<Rightarrow> nat \<Rightarrow> nat option \<Rightarrow> block list \<Rightarrow> error + block list" where
  "update_stash op addr new_data new_x block_idx st =
     (if op = ''write'' then
        (case block_idx of
           Some i \<Rightarrow> Inr (st[i := Block addr new_x new_data False])
         | None \<Rightarrow> Inr (st @ [Block addr new_x new_data False]))
      else if op = ''delete'' then
        (case block_idx of
           Some i \<Rightarrow> Inr (remove_at i st)
         | None \<Rightarrow> (if st = [] then Inl IndexError else Inr (remove_at (length st - 1) st)))
      else Inr st)"

subsection \<open>Access, phase 3: writing the path back\<close>

text \<open>
  The inner loop over the stash at one level, together with the later loop that removes
  the chosen real blocks from the stash (by identity, so exactly the chosen positions
  go): \<open>blocks_to_add\<close> collects the chosen blocks, \<open>kept\<close> the blocks that stay.
  The position map is consulted for every real block, also when the bucket is full.
\<close>

fun collect_blocks ::
  "(int \<rightharpoonup> nat) \<Rightarrow> nat \<Rightarrow> nat \<Rightarrow> nat list \<Rightarrow> nat \<Rightarrow> block list \<Rightarrow> block list \<Rightarrow> block list
     \<Rightarrow> error + block list \<times> block list" where
  "collect_blocks pm l z path_back level [] blocks_to_add kept = Inr (blocks_to_add, kept)"
| "collect_blocks pm l z path_back level (b # bs) blocks_to_add kept =
     (if dummy_flag b then collect_blocks pm l z path_back level bs blocks_to_add (kept @ [b])
      else
        (case pm (blk_a b) of
           None \<Rightarrow> Inl KeyError
         | Some leaf \<Rightarrow>
             (let cur_block_path = get_path_leaf_to_root leaf l in
              if length cur_block_path \<le> level then Inl IndexError
              else if cur_block_path ! level = path_back ! level \<and> length blocks_to_add < z
              then collect_blocks pm l z path_back level bs (blocks_to_add @ [b]) kept
              else collect_blocks pm l z path_back level bs blocks_to_add (kept @ [b]))))"

text \<open>
  One iteration of the loop over the levels. The new nonce is stored before the bucket is
  serialized, and the stash loses the chosen blocks only after the bucket is written.
\<close>

definition write_level ::
  "(nat \<Rightarrow> nonce) \<Rightarrow> nat list \<Rightarrow> nat \<Rightarrow> client \<times> server \<Rightarrow> (error + unit) \<times> client \<times> server" where
  "write_level new_nonce path_back level cs =
     (let c = fst cs; s = snd cs; node = path_back ! level in
      case collect_blocks (position_map c) (srv_L s) (srv_Z s) path_back level (stash c) [] [] of
        Inl e \<Rightarrow> (Inl e, c, s)
      | Inr (chosen, kept) \<Rightarrow>
          (let blocks_to_add = chosen @ replicate (srv_Z s - length chosen) (dummy_block (srv_N s));
               new_bucket = Bucket blocks_to_add (srv_Z s) (srv_N s) False
           in if length (nonces c) \<le> node then (Inl IndexError, c, s)
              else
                (let c1 = c\<lparr>nonces := (nonces c)[node := new_nonce level]\<rparr> in
                 case encode_bucket new_bucket of
                   Inl e \<Rightarrow> (Inl e, c1, s)
                 | Inr data_to_encrypt \<Rightarrow>
                     if length (keys c1) \<le> node \<or> length (tree s) \<le> node
                     then (Inl IndexError, c1, s)
                     else (Inr (),
                           c1\<lparr>stash := kept\<rparr>,
                           s\<lparr>tree := (tree s)[node :=
                                encrypt (keys c1 ! node) (new_nonce level) data_to_encrypt
                                  (bucket_aad node)]\<rparr>))))"

fun write_path ::
  "(nat \<Rightarrow> nonce) \<Rightarrow> nat list \<Rightarrow> nat list \<Rightarrow> client \<times> server
     \<Rightarrow> (error + unit) \<times> client \<times> server" where
  "write_path new_nonce path_back [] cs = (Inr (), cs)"
| "write_path new_nonce path_back (level # levels) cs =
     (case write_level new_nonce path_back level cs of
        (Inl e, cs') \<Rightarrow> (Inl e, cs')
      | (Inr u, cs') \<Rightarrow> write_path new_nonce path_back levels cs')"

subsection \<open>Access\<close>

text \<open>
  \<open>new_x\<close> is the value of \<^verbatim>\<open>random.randint(0, pow(2, server.L) - 1)\<close> and \<open>new_nonce level\<close>
  the value of \<^verbatim>\<open>os.urandom(12)\<close> at that level of the write-back. The result is what the
  call returns or raises, with the client and the server as the call left them.
\<close>

definition Access ::
  "string \<Rightarrow> int \<Rightarrow> string \<Rightarrow> nat \<Rightarrow> (nat \<Rightarrow> nonce) \<Rightarrow> client \<times> server
     \<Rightarrow> (error + string option) \<times> client \<times> server" where
  "Access op addr new_data new_x new_nonce cs =
     (let c = fst cs; s = snd cs in
      case position_map c addr of
        None \<Rightarrow> (Inl KeyError, c, s)
      | Some x \<Rightarrow>
          (let c1 = c\<lparr>position_map := (position_map c)(addr \<mapsto> new_x)\<rparr> in
           case read_path c1 s (zfill (srv_L s) (bin_digits x)) 0 (stash c1) of
             (Inl e, st) \<Rightarrow> (Inl e, c1\<lparr>stash := st\<rparr>, s)
           | (Inr u, st) \<Rightarrow>
               (let block_idx = block_index addr st;
                    data = map_option (\<lambda>i. blk_data (st ! i)) block_idx
                in case update_stash op addr new_data new_x block_idx st of
                     Inl e \<Rightarrow> (Inl e, c1\<lparr>stash := st\<rparr>, s)
                   | Inr st' \<Rightarrow>
                       (let path_back = get_path_leaf_to_root x (srv_L s) in
                        case write_path new_nonce path_back [0..<length path_back]
                               (c1\<lparr>stash := st'\<rparr>, s) of
                          (Inl e, c3, s3) \<Rightarrow> (Inl e, c3, s3)
                        | (Inr u, c3, s3) \<Rightarrow>
                            (Inr data,
                             c3\<lparr>stash := filter (\<lambda>b. \<not> dummy_flag b) (stash c3)\<rparr>,
                             s3)))))"

definition store_data :: "int \<Rightarrow> string \<Rightarrow> nat \<Rightarrow> (nat \<Rightarrow> nonce) \<Rightarrow> client \<times> server
     \<Rightarrow> (error + string option) \<times> client \<times> server" where
  "store_data ident d = Access ''write'' ident d"

definition retrieve_data :: "int \<Rightarrow> nat \<Rightarrow> (nat \<Rightarrow> nonce) \<Rightarrow> client \<times> server
     \<Rightarrow> (error + string option) \<times> client \<times> server" where
  "retrieve_data ident = Access ''read'' ident []"

definition delete_data :: "int \<Rightarrow> string \<Rightarrow> nat \<Rightarrow> (nat \<Rightarrow> nonce) \<Rightarrow> client \<times> server
     \<Rightarrow> (error + string option) \<times> client \<times> server" where
  "delete_data ident d = Access ''delete'' ident d"

subsection \<open>Blocks the codec can carry\<close>

text \<open>
  \<open>contains_sep\<close> finds the two bytes of the separator in a byte string. A block is well
  formed when its address and leaf fit four bytes and its payload is four bytes of valid
  UTF-8, and separator-free when its serialization does not contain the separator.
\<close>

fun contains_sep :: "string \<Rightarrow> bool" where
  "contains_sep (c # d # rest) = ((c = CHR ''|'' \<and> d = CHR ''|'') \<or> contains_sep (d # rest))"
| "contains_sep [c] = False"
| "contains_sep [] = False"

definition well_formed_block :: "block \<Rightarrow> bool" where
  "well_formed_block b =
     (0 \<le> blk_a b \<and> blk_a b < 4294967296 \<and> blk_x b < 4294967296
      \<and> length (blk_data b) = 4 \<and> utf8_valid (blk_data b))"

definition sep_free :: "block \<Rightarrow> bool" where
  "sep_free b = (case serialize b of Inl e \<Rightarrow> False | Inr p \<Rightarrow> \<not> contains_sep p)"

subsection \<open>The nodes of a path read\<close>

text \<open>The values of \<open>i\<close> at which the read loop of Access and the read after it fetch a bucket.\<close>

fun read_nodes :: "string \<Rightarrow> nat \<Rightarrow> nat list" where
  "read_nodes [] i = [i]"
| "read_nodes (b # bits) i = i # read_nodes bits (if b = CHR ''0'' then 2 * i + 1 else 2 * i + 2)"

text \<open>The number that a string of binary digits denotes, most significant digit first.\<close>

fun bits_value :: "string \<Rightarrow> nat" where
  "bits_value [] = 0"
| "bits_value (b # bits) = (if b = CHR ''0'' then 0 else 1) * 2 ^ length bits + bits_value bits"

subsection \<open>Sample runs\<close>

text \<open>
  Concrete keys, nonces and leaves for the examples below. \<open>oram n z leaf\<close> is the pair
  of client and server that \<^verbatim>\<open>Client(Server(n, z))\<close> builds when every address is mapped to
  \<open>leaf\<close>; \<open>run\<close> performs a list of requests in order and returns what the last one
  returned together with the final state.
\<close>

definition demo_key :: "nat \<Rightarrow> key" where
  "demo_key i = ''key-'' @ str_nat i"

definition demo_nonce :: "nat \<Rightarrow> nonce" where
  "demo_nonce i = ''init-'' @ str_nat i"

definition fresh_nonce :: "nat \<Rightarrow> nonce" where
  "fresh_nonce level = ''fresh-'' @ str_nat level"

definition oram :: "nat \<Rightarrow> nat \<Rightarrow> nat \<Rightarrow> client \<times> server" where
  "oram n z leaf = projr (Client_init n z demo_key demo_nonce (\<lambda>addr. leaf))"

text \<open>A server that overwrites node \<open>i\<close> with a ciphertext the client never produced.\<close>

definition tamper :: "nat \<Rightarrow> client \<times> server \<Rightarrow> client \<times> server" where
  "tamper i cs =
     (fst cs, (snd cs)\<lparr>tree := (tree (snd cs))[i := Sealed ''other-key'' ''other-nonce'' [] []]\<rparr>)"

text \<open>Requests: operation, address, payload and the new leaf drawn for the address.\<close>

type_synonym request = "string \<times> int \<times> string \<times> nat"

fun run :: "request list \<Rightarrow> client \<times> server \<Rightarrow> client \<times> server" where
  "run [] cs = cs"
| "run ((op, addr, d, new_x) # rs) cs = run rs (snd (Access op addr d new_x fresh_nonce cs))"

definition two_writes :: "request list" where
  "two_writes = [(''write'', 0, ''AAAA'', 0), (''write'', 1, ''BBBB'', 0)]"

definition four_writes :: "request list" where
  "four_writes =
     [(''write'', 0, ''AAAA'', 0), (''write'', 1, ''BBBB'', 0),
      (''write'', 2, ''CCCC'', 0), (''write'', 3, ''DDDD'', 0)]"

text \<open>Encoding a bucket and decoding the payload again.\<close>

definition codec_roundtrip :: "block list \<Rightarrow> error + block list" where
  "codec_roundtrip blocks =
     (case encode_bucket blocks of Inl e \<Rightarrow> Inl e | Inr payload \<Rightarrow> decode_bucket payload)"

section \<open>Properties\<close>

subsection \<open>Which errors each phase can raise\<close>

lemma read_path_extends:
  "read_path c s bits i st = (r, st') \<Longrightarrow> \<exists>bs. st' = st @ bs"
proof (induction bits arbitrary: i st)
  case Nil
  then show ?case by (auto split: sum.splits)
next
  case (Cons b bits)
  show ?case
  proof (cases "read_bucket c s i")
    case (Inl e)
    with Cons.prems show ?thesis by simp
  next
    case (Inr blocks)
    with Cons.prems
    have "read_path c s bits (if b = CHR ''0'' then 2 * i + 1 else 2 * i + 2) (st @ blocks)
            = (r, st')"
      by simp
    from Cons.IH [OF this] show ?thesis by auto
  qed
qed

lemma serialize_error: "serialize b = Inl e \<Longrightarrow> e = OverflowError"
  by (auto simp: serialize_def to_bytes4_def Let_def split: sum.splits if_splits)

lemma map_result_serialize_error: "map_result serialize bs = Inl e \<Longrightarrow> e = OverflowError"
  by (induction bs) (auto split: sum.splits dest: serialize_error)

lemma encode_bucket_error: "encode_bucket bs = Inl e \<Longrightarrow> e = OverflowError"
  by (auto simp: encode_bucket_def split: sum.splits dest: map_result_serialize_error)

lemma collect_blocks_error:
  "collect_blocks pm l z pb level st chosen kept = Inl e \<Longrightarrow> e = KeyError \<or> e = IndexError"
  by (induction st arbitrary: chosen kept) (auto simp: Let_def split: if_splits option.splits)

lemma write_level_error:
  "write_level nn pb level cs = (Inl e, cs') \<Longrightarrow> e \<noteq> InvalidTag"
  by (auto simp: write_level_def Let_def Bucket_def split: sum.splits prod.splits if_splits
      dest: collect_blocks_error encode_bucket_error)

lemma write_path_error:
  "write_path nn pb levels cs = (Inl e, cs') \<Longrightarrow> e \<noteq> InvalidTag"
proof (induction levels arbitrary: cs)
  case Nil
  then show ?case by simp
next
  case (Cons level levels)
  then show ?case
    by (auto split: prod.splits sum.splits dest: write_level_error)
qed

lemma update_stash_error:
  "update_stash op a d nx idx st = Inl e \<Longrightarrow> e = IndexError"
  by (auto simp: update_stash_def split: if_splits option.splits)

subsection \<open>What the write-back touches\<close>

lemma write_level_frame:
  assumes "write_level nn pb level (c, s) = (r, c', s')"
  shows "position_map c' = position_map c" and "keys c' = keys c"
    and "length (nonces c') = length (nonces c)" and "length (tree s') = length (tree s)"
    and "srv_L s' = srv_L s" and "srv_Z s' = srv_Z s" and "srv_N s' = srv_N s"
    and "i \<noteq> pb ! level \<Longrightarrow> nonces c' ! i = nonces c ! i"
    and "i \<noteq> pb ! level \<Longrightarrow> tree s' ! i = tree s ! i"
  using assms
  by (auto simp: write_level_def Let_def split: sum.splits prod.splits if_splits)

lemma write_path_frame:
  assumes "write_path nn pb levels (c, s) = (r, c', s')"
    and "\<forall>level \<in> set levels. level < length pb"
  shows "position_map c' = position_map c \<and> keys c' = keys c
    \<and> length (nonces c') = length (nonces c) \<and> length (tree s') = length (tree s)
    \<and> srv_L s' = srv_L s
    \<and> (\<forall>i. i \<notin> set pb \<longrightarrow> nonces c' ! i = nonces c ! i \<and> tree s' ! i = tree s ! i)"
  using assms
proof (induction levels arbitrary: c s)
  case Nil
  then show ?case by simp
next
  case (Cons level levels)
  obtain r1 c1 s1 where w: "write_level nn pb level (c, s) = (r1, c1, s1)"
    by (cases "write_level nn pb level (c, s)") auto
  have in_pb: "pb ! level \<in> set pb" using Cons.prems(2) by simp
  note f = write_level_frame [OF w]
  show ?case
  proof (cases r1)
    case (Inl e)
    with Cons.prems(1) w have "c' = c1" "s' = s1" by auto
    with f in_pb show ?thesis by metis
  next
    case (Inr u)
    with Cons.prems(1) w have "write_path nn pb levels (c1, s1) = (r, c', s')" by auto
    from Cons.IH [OF this] Cons.prems(2) f in_pb show ?thesis by (metis list.set_intros(2))
  qed
qed

text \<open>A call's result, split into what it returned and the state it left.\<close>

lemma Access_result:
  "Access op a d new_x nn cs =
     (fst (Access op a d new_x nn cs),
      fst (snd (Access op a d new_x nn cs)),
      snd (snd (Access op a d new_x nn cs)))"
  by simp

subsection \<open>Constructed clients and their addresses\<close>

lemma oram_init:
  assumes "\<not> isl (Client_init n z demo_key demo_nonce (\<lambda>addr. leaf))"
  shows "Client_init n z demo_key demo_nonce (\<lambda>addr. leaf) = Inr (oram n z leaf)"
  using assms unfolding oram_def by (cases "Client_init n z demo_key demo_nonce (\<lambda>addr. leaf)") auto

lemma Client_init_position_map:
  assumes "Client_init n z gk gn rl = Inr (c, s)"
  shows "dom (position_map c) = {0..<int n}" and "srv_N s = n" and "stash c = []"
  using assms
  by (auto simp: Client_init_def Let_def dom_def split: if_splits sum.splits)

lemma Access_keeps_addresses:
  assumes "Access op a d new_x nn (c, s) = (r, c', s')"
  shows "dom (position_map c') = dom (position_map c)"
proof (cases "position_map c a")
  case None
  with assms show ?thesis by (auto simp: Access_def Let_def)
next
  case (Some x)
  let ?pb = "get_path_leaf_to_root x (srv_L s)"
  have lv: "\<forall>level \<in> set [0..<length ?pb]. level < length ?pb" by simp
  have d: "dom ((position_map c)(a \<mapsto> new_x)) = dom (position_map c)"
    using Some by auto
  from assms Some have "position_map c' = (position_map c)(a \<mapsto> new_x)"
    by (auto simp: Access_def Let_def split: prod.splits sum.splits
        dest!: write_path_frame [OF _ lv])
  with d show ?thesis by simp
qed

subsection \<open>Lengths of payloads and ciphertexts\<close>

lemma to_bytes4_length: "to_bytes4 n = Inr bs \<Longrightarrow> length bs = 4"
  by (auto simp: to_bytes4_def split: if_splits)

lemma serialize_length:
  "serialize b = Inr p \<Longrightarrow> length p = 9 + length (blk_data b)"
  by (auto simp: serialize_def Let_def split: sum.splits dest!: to_bytes4_length)

lemma map_result_length: "map_result f vs = Inr ws \<Longrightarrow> length ws = length vs"
  by (induction vs arbitrary: ws) (auto split: sum.splits)

lemma map_result_nth:
  "map_result f vs = Inr ws \<Longrightarrow> i < length vs \<Longrightarrow> f (vs ! i) = Inr (ws ! i)"
proof (induction vs arbitrary: ws i)
  case Nil
  then show ?case by simp
next
  case (Cons v vs)
  then show ?case by (cases i) (auto split: sum.splits)
qed

lemma join_sep_length:
  "ps \<noteq> [] \<Longrightarrow> length (join_sep ps) = sum_list (map length ps) + 2 * (length ps - 1)"
  by (induction ps rule: join_sep.induct) auto

lemma encode_bucket_length:
  assumes "encode_bucket blocks = Inr payload" and "blocks \<noteq> []"
    and "\<forall>b \<in> set blocks. length (blk_data b) = 4"
  shows "length payload = length blocks * 13 + 2 * (length blocks - 1)"
proof -
  from assms(1) obtain ps where ps: "map_result serialize blocks = Inr ps"
    and payload: "payload = join_sep ps"
    by (auto simp: encode_bucket_def split: sum.splits)
  have len: "length ps = length blocks" using ps by (rule map_result_length)
  have "\<forall>p \<in> set ps. length p = 13"
  proof
    fix p assume "p \<in> set ps"
    then obtain i where i: "i < length ps" "p = ps ! i" by (auto simp: in_set_conv_nth)
    with len map_result_nth [OF ps, of i] have "serialize (blocks ! i) = Inr p" by simp
    from serialize_length [OF this] assms(3) i len show "length p = 13" by simp
  qed
  then have "map length ps = replicate (length ps) 13"
    by (auto simp: map_replicate_const [symmetric] intro!: map_cong)
  then have "sum_list (map length ps) = length ps * 13" by (simp add: sum_list_replicate)
  moreover have "ps \<noteq> []" using len assms(2) by auto
  ultimately show ?thesis using join_sep_length [of ps] len payload by simp
qed

lemma Client_init_ciphertext_length:
  assumes "Client_init n z gk gn rl = Inr (c, s)"
  shows "\<forall>ct \<in> set (tree s). ct_length ct = z * 13 + 2 * (z - 1) + tag_len"
proof -
  from assms obtain payload where
    e: "encode_bucket (replicate z (dummy_block n)) = Inr payload" and z: "z \<noteq> 0"
    and t: "tree s = map (\<lambda>i. encrypt (gk i) (gn i) payload (bucket_aad i)) [0..<n div z]"
    by (auto simp: Client_init_def Let_def Bucket_def split: if_splits sum.splits)
  have "length payload = z * 13 + 2 * (z - 1)"
    using encode_bucket_length [OF e] z by (simp add: dummy_block_def Block_def)
  with t show ?thesis by (auto simp: encrypt_def)
qed


lemma collect_blocks_chosen:
  assumes "collect_blocks pm l z pb level st chosen kept = Inr (chosen', kept')"
    and "length chosen \<le> z"
  shows "length chosen' \<le> z \<and> set chosen' \<subseteq> set chosen \<union> set st"
  using assms
proof (induction st arbitrary: chosen kept)
  case Nil
  then show ?case by simp
next
  case (Cons b st)
  show ?case
  proof (cases "dummy_flag b")
    case True
    with Cons.prems have "collect_blocks pm l z pb level st chosen (kept @ [b]) = Inr (chosen', kept')"
      by simp
    from Cons.IH [OF this Cons.prems(2)] show ?thesis by auto
  next
    case False
    with Cons.prems(1) obtain leaf where leaf: "pm (blk_a b) = Some leaf"
      by (auto split: option.splits)
    let ?take = "get_path_leaf_to_root leaf l ! level = pb ! level \<and> length chosen < z"
    show ?thesis
    proof (cases ?take)
      case True
      with False leaf Cons.prems(1)
      have "collect_blocks pm l z pb level st (chosen @ [b]) kept = Inr (chosen', kept')"
        by (auto simp: Let_def split: if_splits)
      moreover from True have "length (chosen @ [b]) \<le> z" by simp
      ultimately show ?thesis using Cons.IH by fastforce
    next
      case no: False
      with False leaf Cons.prems(1)
      have "collect_blocks pm l z pb level st chosen (kept @ [b]) = Inr (chosen', kept')"
        by (auto simp: Let_def split: if_splits)
      from Cons.IH [OF this Cons.prems(2)] show ?thesis by auto
    qed
  qed
qed

lemma write_level_ciphertext_length:
  assumes w: "write_level nn pb level (c, s) = (Inr u, c', s')"
    and z: "0 < srv_Z s"
    and d: "\<forall>b \<in> set (stash c). length (blk_data b) = 4"
  shows "ct_length (tree s' ! (pb ! level)) = srv_Z s * 13 + 2 * (srv_Z s - 1) + tag_len"
proof -
  from w obtain chosen kept payload where
    cb: "collect_blocks (position_map c) (srv_L s) (srv_Z s) pb level (stash c) [] []
           = Inr (chosen, kept)"
    and e: "encode_bucket (chosen @ replicate (srv_Z s - length chosen) (dummy_block (srv_N s)))
              = Inr payload"
    and n: "pb ! level < length (tree s)"
    and t: "tree s' = (tree s)[pb ! level :=
              encrypt (keys c ! (pb ! level)) (nn level) payload (bucket_aad (pb ! level))]"
    by (auto simp: write_level_def Let_def Bucket_def split: sum.splits prod.splits if_splits)
  from collect_blocks_chosen [OF cb] have ch: "length chosen \<le> srv_Z s" "set chosen \<subseteq> set (stash c)"
    by auto
  let ?bucket = "chosen @ replicate (srv_Z s - length chosen) (dummy_block (srv_N s))"
  have len: "length ?bucket = srv_Z s" using ch by simp
  have "\<forall>b \<in> set ?bucket. length (blk_data b) = 4"
    using ch d by (auto simp: dummy_block_def Block_def)
  from encode_bucket_length [OF e _ this] len z
  have "length payload = srv_Z s * 13 + 2 * (srv_Z s - 1)" by fastforce
  with t n show ?thesis by (simp add: encrypt_def)
qed


subsection \<open>The codec on separator-free blocks\<close>

lemma split_from_no_sep: "\<not> contains_sep p \<Longrightarrow> split_from cur p = [cur @ p]"
  by (induction cur p rule: split_from.induct) auto

lemma split_from_piece:
  "\<not> contains_sep (p @ ''|'') \<Longrightarrow> split_from cur (p @ ''||'' @ rest) = (cur @ p) # split_from [] rest"
proof (induction p arbitrary: cur)
  case Nil
  then show ?case by simp
next
  case (Cons c p)
  show ?case
  proof (cases p)
    case Nil
    with Cons.prems show ?thesis by simp
  next
    case (Cons d p')
    with Cons.prems have "\<not> (c = CHR ''|'' \<and> d = CHR ''|'')" and "\<not> contains_sep (p @ ''|'')"
      by auto
    with Cons.IH [of "cur @ [c]"] Cons show ?thesis by auto
  qed
qed

lemma contains_sep_append_bar:
  "\<not> contains_sep (p @ ''|'') \<Longrightarrow> \<not> contains_sep p"
  by (induction p rule: contains_sep.induct) auto

lemma split_join:
  assumes "ps \<noteq> []" and "\<forall>p \<in> set ps. \<not> contains_sep (p @ ''|'')"
  shows "split_sep (join_sep ps) = ps"
  using assms unfolding split_sep_def
proof (induction ps rule: join_sep.induct)
  case 1
  then show ?case by simp
next
  case (2 p)
  then show ?case by (simp add: split_from_no_sep contains_sep_append_bar)
next
  case (3 p q ps)
  from "3.prems" have "split_from [] (p @ ''||'' @ join_sep (q # ps)) = ([] @ p) # split_from [] (join_sep (q # ps))"
    by (intro split_from_piece) simp
  with 3 show ?case by simp
qed

lemma contains_sep_snoc:
  "contains_sep (p @ [c]) = (contains_sep p \<or> (p \<noteq> [] \<and> last p = CHR ''|'' \<and> c = CHR ''|''))"
  by (induction p rule: contains_sep.induct) auto


lemma four_bytes:
  assumes "(m::nat) < 4294967296"
  shows "((m div 16777216 mod 256 * 256 + m div 65536 mod 256) * 256 + m div 256 mod 256) * 256
        + m mod 256 = m"
proof -
  define q1 q2 q3 where "q1 = m div 256" and "q2 = q1 div 256" and "q3 = q2 div 256"
  define r0 r1 r2 where "r0 = m mod 256" and "r1 = q1 mod 256" and "r2 = q2 mod 256"
  have e1: "m = q1 * 256 + r0" by (simp add: q1_def r0_def)
  have e2: "q1 = q2 * 256 + r1" by (simp add: q2_def r1_def)
  have e3: "q2 = q3 * 256 + r2" by (simp add: q3_def r2_def)
  have d2: "m div 65536 = q2" by (simp add: q2_def q1_def div_mult2_eq)
  have d3: "m div 16777216 = q3" by (simp add: q3_def q2_def q1_def div_mult2_eq)
  have "q3 < 256" using assms e1 e2 e3 by linarith
  then have "q3 mod 256 = q3" by simp
  then have "((m div 16777216 mod 256 * 256 + m div 65536 mod 256) * 256 + m div 256 mod 256) * 256
        + m mod 256 = ((q3 * 256 + r2) * 256 + r1) * 256 + r0"
    by (simp only: d2 d3 q1_def [symmetric] r0_def r1_def r2_def)
  also have "\<dots> = m" using e1 e2 e3 by (simp add: algebra_simps)
  finally show ?thesis .
qed

lemma of_char_char_of_nat: "(of_char (char_of (m::nat)) :: nat) = m mod 256"
  by (simp add: of_char_of)

lemma from_bytes_to_bytes4:
  assumes "to_bytes4 n = Inr bs"
  shows "int (from_bytes bs) = n"
proof -
  from assms have r: "0 \<le> n" "n < 4294967296"
    and bs: "bs = map (\<lambda>k. char_of (nat n div 256 ^ k)) [3, 2, 1, 0]"
    by (auto simp: to_bytes4_def split: if_splits)
  define m where "m = nat n"
  have m: "m < 4294967296" "n = int m" using r by (auto simp: m_def)
  have "from_bytes bs =
      ((m div 16777216 mod 256 * 256 + m div 65536 mod 256) * 256 + m div 256 mod 256) * 256
        + m mod 256"
    by (simp add: bs from_bytes_def of_char_char_of_nat m_def)
  also have "\<dots> = m" using m(1) by (rule four_bytes)
  finally show ?thesis using m by simp
qed

lemma deserialize_serialize:
  assumes "well_formed_block b" and "serialize b = Inr p"
  shows "deserialize_block p = Inr b"
proof -
  from assms(2) obtain ab xb where ab: "to_bytes4 (blk_a b) = Inr ab"
    and xb: "to_bytes4 (int (blk_x b)) = Inr xb"
    and p: "p = ab @ xb @ blk_data b @ (if dummy_flag b then ''1'' else ''0'')"
    by (auto simp: serialize_def Let_def split: sum.splits)
  have la: "length ab = 4" and lx: "length xb = 4"
    using ab xb by (auto simp: to_bytes4_def split: if_splits)
  from assms(1) have ld: "length (blk_data b) = 4" and u: "utf8_valid (blk_data b)"
    by (auto simp: well_formed_block_def)
  from from_bytes_to_bytes4 [OF ab] from_bytes_to_bytes4 [OF xb]
  have fa: "int (from_bytes ab) = blk_a b" and fx: "from_bytes xb = blk_x b" by auto
  have "slice 0 4 p = ab" "slice 4 8 p = xb" "slice 8 12 p = blk_data b"
    "slice 12 13 p = (if dummy_flag b then ''1'' else ''0'')"
    using la lx ld by (auto simp: slice_def p)
  with fa fx u show ?thesis
    by (auto simp: deserialize_block_def decode_utf8_def Let_def Block_def)
qed


lemma serialize_well_formed:
  "well_formed_block b \<Longrightarrow> \<exists>p. serialize b = Inr p"
  by (auto simp: well_formed_block_def serialize_def to_bytes4_def Let_def)

lemma serialize_last:
  "serialize b = Inr p \<Longrightarrow> p \<noteq> [] \<and> last p \<noteq> CHR ''|''"
  by (cases "dummy_flag b") (auto simp: serialize_def Let_def split: sum.splits)

lemma serialize_sep_free:
  assumes "sep_free b" and "serialize b = Inr p"
  shows "\<not> contains_sep (p @ ''|'')"
  using assms serialize_last [OF assms(2)] by (simp add: sep_free_def contains_sep_snoc)

lemma map_result_roundtrip:
  assumes "\<forall>b \<in> set blocks. well_formed_block b \<and> sep_free b"
  shows "\<exists>ps. map_result serialize blocks = Inr ps
          \<and> map_result deserialize_block ps = Inr blocks
          \<and> length ps = length blocks
          \<and> (\<forall>p \<in> set ps. \<not> contains_sep (p @ ''|''))"
  using assms
proof (induction blocks)
  case Nil
  then show ?case by simp
next
  case (Cons b blocks)
  then obtain ps where ps: "map_result serialize blocks = Inr ps"
    "map_result deserialize_block ps = Inr blocks" "length ps = length blocks"
    "\<forall>p \<in> set ps. \<not> contains_sep (p @ ''|'')"
    by auto
  from Cons.prems have wf: "well_formed_block b" and sf: "sep_free b" by auto
  from serialize_well_formed [OF wf] obtain p where p: "serialize b = Inr p" ..
  from deserialize_serialize [OF wf p] serialize_sep_free [OF sf p] ps p
  show ?case by auto
qed

lemma codec_roundtrip_separator_free:
  assumes "blocks \<noteq> []" and "\<forall>b \<in> set blocks. well_formed_block b \<and> sep_free b"
  shows "codec_roundtrip blocks = Inr blocks"
proof -
  from map_result_roundtrip [OF assms(2)] obtain ps where
    ps: "map_result serialize blocks = Inr ps" "map_result deserialize_block ps = Inr blocks"
    "length ps = length blocks" "\<forall>p \<in> set ps. \<not> contains_sep (p @ ''|'')"
    by auto
  from ps(3) assms(1) have "ps \<noteq> []" by auto
  from split_join [OF this ps(4)] ps(1,2) show ?thesis
    by (simp add: codec_roundtrip_def encode_bucket_def decode_bucket_def)
qed


subsection \<open>Nodes read, and the delete branch\<close>

lemma read_path_in_range:
  assumes "read_path c s bits i st = (Inr u, st')"
  shows "\<forall>j \<in> set (read_nodes bits i). j < length (tree s) \<and> \<not> isl (read_bucket c s j)"
  using assms
proof (induction bits arbitrary: i st)
  case Nil
  then show ?case by (auto simp: read_bucket_def split: sum.splits if_splits)
next
  case (Cons b bits)
  from Cons.prems obtain blocks where rb: "read_bucket c s i = Inr blocks"
    and rest: "read_path c s bits (if b = CHR ''0'' then 2 * i + 1 else 2 * i + 2) (st @ blocks)
                 = (Inr u, st')"
    by (auto split: sum.splits)
  from rb have "i < length (tree s)" by (auto simp: read_bucket_def split: if_splits)
  with rb Cons.IH [OF rest] show ?case by auto
qed

lemma bin_digits_not_empty: "bin_digits x \<noteq> []"
  by (subst bin_digits.simps) simp

lemma zfill_not_empty: "s \<noteq> [] \<Longrightarrow> zfill w s \<noteq> []"
  by (simp add: zfill_def)

lemma read_nodes_height_zero: "2 \<le> length (read_nodes (zfill 0 (bin_digits x)) 0)"
proof -
  from zfill_not_empty [OF bin_digits_not_empty] obtain b bits
    where "zfill 0 (bin_digits x) = b # bits"
    by (cases "zfill 0 (bin_digits x)") auto
  then show ?thesis by (cases bits) auto
qed

lemma delete_not_found:
  assumes "block_index a st = None" and "st \<noteq> []"
  shows "update_stash ''delete'' a d new_x (block_index a st) st = Inr (butlast st)"
  using assms by (simp add: update_stash_def remove_at_def butlast_conv_take)

lemma Access_reads_nodes:
  assumes "Access op a d new_x nn (c, s) = (Inr r, c', s')" and "position_map c a = Some x"
  shows "\<forall>j \<in> set (read_nodes (zfill (srv_L s) (bin_digits x)) 0). j < length (tree s)"
proof -
  from assms obtain u st where
    "read_path (c\<lparr>position_map := (position_map c)(a \<mapsto> new_x)\<rparr>) s
       (zfill (srv_L s) (bin_digits x)) 0 (stash c) = (Inr u, st)"
    by (auto simp: Access_def Let_def split: prod.splits sum.splits)
  from read_path_in_range [OF this] show ?thesis by auto
qed


lemma read_bucket_client:
  "keys c' = keys c \<Longrightarrow> nonces c' = nonces c \<Longrightarrow> read_bucket c' s = read_bucket c s"
  by (rule ext) (simp add: read_bucket_def)

lemma read_path_failure:
  assumes "read_path c s bits i st = (Inl e, st')"
  shows "\<exists>k < length (read_nodes bits i).
           read_bucket c s (read_nodes bits i ! k) = Inl e
           \<and> st' = st @ concat (map (\<lambda>j. projr (read_bucket c s j)) (take k (read_nodes bits i)))"
  using assms
proof (induction bits arbitrary: i st)
  case Nil
  then have "read_bucket c s i = Inl e" "st' = st" by (auto split: sum.splits)
  then show ?case by auto
next
  case (Cons b bits)
  let ?i' = "if b = CHR ''0'' then 2 * i + 1 else 2 * i + 2"
  show ?case
  proof (cases "read_bucket c s i")
    case (Inl e')
    with Cons.prems have "read_bucket c s i = Inl e" "st' = st" by auto
    then have "0 < length (read_nodes (b # bits) i)
        \<and> read_bucket c s (read_nodes (b # bits) i ! 0) = Inl e
        \<and> st' = st @ concat (map (\<lambda>j. projr (read_bucket c s j)) (take 0 (read_nodes (b # bits) i)))"
      by simp
    then show ?thesis by blast
  next
    case (Inr blocks)
    with Cons.prems have "read_path c s bits ?i' (st @ blocks) = (Inl e, st')" by simp
    from Cons.IH [OF this] obtain k where k: "k < length (read_nodes bits ?i')"
      "read_bucket c s (read_nodes bits ?i' ! k) = Inl e"
      "st' = (st @ blocks) @ concat (map (\<lambda>j. projr (read_bucket c s j)) (take k (read_nodes bits ?i')))"
      by auto
    with Inr have "Suc k < length (read_nodes (b # bits) i)
        \<and> read_bucket c s (read_nodes (b # bits) i ! Suc k) = Inl e
        \<and> st' = st @ concat (map (\<lambda>j. projr (read_bucket c s j)) (take (Suc k) (read_nodes (b # bits) i)))"
      by simp
    then show ?thesis by blast
  qed
qed

lemma read_path_first_failure:
  assumes "k < length (read_nodes bits i)"
    and "read_bucket c s (read_nodes bits i ! k) = Inl e"
    and "\<forall>j < k. \<not> isl (read_bucket c s (read_nodes bits i ! j))"
  shows "read_path c s bits i st =
           (Inl e, st @ concat (map (\<lambda>j. projr (read_bucket c s j)) (take k (read_nodes bits i))))"
  using assms
proof (induction bits arbitrary: i st k)
  case Nil
  then show ?case by simp
next
  case (Cons b bits)
  let ?i' = "if b = CHR ''0'' then 2 * i + 1 else 2 * i + 2"
  show ?case
  proof (cases k)
    case 0
    with Cons.prems show ?thesis by simp
  next
    case (Suc k')
    from Cons.prems(3) Suc have "\<not> isl (read_bucket c s i)" by force
    then obtain blocks where rb: "read_bucket c s i = Inr blocks"
      by (cases "read_bucket c s i") auto
    from Cons.prems Suc have k': "k' < length (read_nodes bits ?i')"
      and e: "read_bucket c s (read_nodes bits ?i' ! k') = Inl e"
      by auto
    have ok: "\<forall>j < k'. \<not> isl (read_bucket c s (read_nodes bits ?i' ! j))"
    proof (intro allI impI)
      fix j assume "j < k'"
      with Suc have "Suc j < k" by simp
      with Cons.prems(3) have "\<not> isl (read_bucket c s (read_nodes (b # bits) i ! Suc j))" by blast
      then show "\<not> isl (read_bucket c s (read_nodes bits ?i' ! j))" by simp
    qed
    from Cons.IH [OF k' e ok, of "st @ blocks"] rb Suc show ?thesis by simp
  qed
qed

subsection \<open>The path read and the path written\<close>

text \<open>
  For a tree of positive height and a leaf below \<open>2 ^ L\<close> the nodes of the path read are
  the nodes of get_path_leaf_to_root in the opposite order, and all of them lie in the
  full tree of \<open>2 ^ (L + 1) - 1\<close> nodes.
\<close>

lemma read_nodes_not_empty: "read_nodes bits i \<noteq> []"
  by (cases bits) auto

lemma path_up_tl: "tl (path_up i) = (if i \<noteq> 0 then path_up ((i - 1) div 2) else [])"
  by (subst path_up.simps) simp

lemma path_up_hd: "path_up i \<noteq> []" "hd (path_up i) = i"
  by (subst path_up.simps, simp)+

lemma path_up_head: "path_up i = i # tl (path_up i)"
  using path_up_hd [of i] by (cases "path_up i") auto

lemma path_up_child:
  "tl (path_up (2 * i + 1)) = path_up i" "tl (path_up (2 * i + 2)) = path_up i"
  by (simp_all add: path_up_tl)

lemma path_up_read_nodes:
  "path_up (last (read_nodes bits i)) = rev (read_nodes bits i) @ tl (path_up i)"
proof (induction bits arbitrary: i)
  case Nil
  show ?case using path_up_head [of i] by simp
next
  case (Cons b bits)
  let ?i' = "if b = CHR ''0'' then 2 * i + 1 else 2 * i + 2"
  have "tl (path_up ?i') = path_up i" by (simp add: path_up_tl)
  also have "\<dots> = i # tl (path_up i)" by (rule path_up_head)
  finally have "tl (path_up ?i') = i # tl (path_up i)" .
  with Cons.IH [of ?i'] show ?case by (simp add: read_nodes_not_empty)
qed


lemma last_read_nodes:
  "last (read_nodes bits i) + 1 = 2 ^ length bits * (i + 1) + bits_value bits"
proof (induction bits arbitrary: i)
  case Nil
  show ?case by simp
next
  case (Cons b bits)
  let ?i' = "if b = CHR ''0'' then 2 * i + 1 else 2 * i + 2"
  from Cons.IH [of ?i'] show ?case
    by (simp add: read_nodes_not_empty algebra_simps)
qed

lemma bits_value_snoc:
  "bits_value (s @ [c]) = 2 * bits_value s + (if c = CHR ''0'' then 0 else 1)"
  by (induction s) (auto simp: algebra_simps)

lemma digit_char_values: "digit_char 0 = CHR ''0''" "digit_char 1 = CHR ''1''"
  by code_simp+

lemma digit_char_bit: "d < 2 \<Longrightarrow> (if digit_char d = CHR ''0'' then 0 else 1) = d"
proof -
  assume "d < 2"
  then have "d = 0 \<or> d = 1" by auto
  then show ?thesis using digit_char_values by auto
qed

lemma bits_value_bin_digits: "bits_value (bin_digits n) = n"
proof (induction n rule: bin_digits.induct)
  case (1 n)
  show ?case
  proof (cases "n < 2")
    case True
    then show ?thesis using digit_char_bit [of n] by (subst bin_digits.simps) simp
  next
    case False
    with 1 have "bits_value (bin_digits (n div 2)) = n div 2" by simp
    with False digit_char_bit [of "n mod 2"] show ?thesis
      by (subst bin_digits.simps) (simp add: bits_value_snoc)
  qed
qed

lemma length_bin_digits: "n < 2 ^ l \<Longrightarrow> 0 < l \<Longrightarrow> length (bin_digits n) \<le> l"
proof (induction n arbitrary: l rule: bin_digits.induct)
  case (1 n)
  show ?case
  proof (cases "n < 2")
    case True
    with "1.prems" show ?thesis by (subst bin_digits.simps) simp
  next
    case False
    from "1.prems" obtain l' where l: "l = Suc l'" by (cases l) auto
    with "1.prems" False have "n div 2 < 2 ^ l'" "0 < l'"
      by (auto intro: Nat.gr0I)
    with 1 False have "length (bin_digits (n div 2)) \<le> l'" by simp
    with False l show ?thesis by (subst bin_digits.simps) simp
  qed
qed

lemma bits_value_zeros: "bits_value (replicate k CHR ''0'' @ s) = bits_value s"
  by (induction k) auto

lemma read_path_is_write_path:
  assumes "0 < l" and "x < 2 ^ l"
  shows "read_nodes (zfill l (bin_digits x)) 0 = rev (get_path_leaf_to_root x l)"
proof -
  let ?bits = "zfill l (bin_digits x)"
  have len: "length ?bits = l"
    using length_bin_digits [OF assms(2) assms(1)] by (simp add: zfill_def)
  have val: "bits_value ?bits = x"
    by (simp add: zfill_def bits_value_zeros bits_value_bin_digits)
  from last_read_nodes [of ?bits 0] len val
  have "last (read_nodes ?bits 0) = 2 ^ l - 1 + x" by simp
  moreover have "(2::nat) ^ (l + 1) - 1 - 2 ^ l = 2 ^ l - 1" by simp
  ultimately have "get_path_leaf_to_root x l = path_up (last (read_nodes ?bits 0))"
    by (simp add: get_path_leaf_to_root_def Let_def)
  also have "\<dots> = rev (read_nodes ?bits 0)"
    using path_up_read_nodes [of ?bits 0] by (simp add: path_up_tl)
  finally show ?thesis by simp
qed


lemma path_up_le: "j \<in> set (path_up i) \<Longrightarrow> j \<le> i"
proof (induction i arbitrary: j rule: path_up.induct)
  case (1 i)
  from "1.prems" have "j = i \<or> (i \<noteq> 0 \<and> j \<in> set (path_up ((i - 1) div 2)))"
    by (subst (asm) path_up.simps) (auto split: if_splits)
  then show ?case
  proof
    assume "j = i"
    then show ?thesis by simp
  next
    assume a: "i \<noteq> 0 \<and> j \<in> set (path_up ((i - 1) div 2))"
    with "1.IH" have "j \<le> (i - 1) div 2" by simp
    then show ?thesis by simp
  qed
qed

lemma path_in_full_tree:
  assumes "x < 2 ^ l" and "j \<in> set (get_path_leaf_to_root x l)"
  shows "j < 2 ^ (l + 1) - 1"
proof -
  have "(2::nat) ^ (l + 1) - 1 - 2 ^ l = 2 ^ l - 1" by simp
  with assms(2) have "j \<in> set (path_up (2 ^ l - 1 + x))"
    by (simp add: get_path_leaf_to_root_def Let_def)
  from path_up_le [OF this] assms(1) show ?thesis by simp
qed

subsection \<open>The stash after a call\<close>

text \<open>
  Claim C8. Whenever Access returns (whatever the operation and the address), no block
  left in the client's stash is a dummy: the last statement of Access keeps only the
  blocks whose dummy flag is false.
\<close>

theorem Access_stash_has_no_dummies:
  assumes "Access op a d new_x nn cs = (Inr r, c', s')"
  shows "\<forall>b \<in> set (stash c'). \<not> dummy_flag b"
  using assms
  by (auto simp: Access_def Let_def split: option.splits prod.splits sum.splits)

text \<open>
  With one block per bucket and three buckets, the third of three writes leaves its block
  in the stash: both buckets of the path are taken by the first two.
\<close>

theorem Access_stash_has_no_dummies_witness:
  "fst (Access ''write'' 2 ''CCCC'' 0 fresh_nonce (run two_writes (oram 3 1 0))) = Inr None
   \<and> stash (fst (snd (Access ''write'' 2 ''CCCC'' 0 fresh_nonce (run two_writes (oram 3 1 0)))))
       = [Block 2 0 ''CCCC'' False]
   \<and> list_all (\<lambda>b. \<not> dummy_flag b)
         (stash (fst (snd (Access ''write'' 2 ''CCCC'' 0 fresh_nonce (run two_writes (oram 3 1 0))))))"
proof -
  let ?A = "Access ''write'' 2 ''CCCC'' 0 fresh_nonce (run two_writes (oram 3 1 0))"
  have r: "fst ?A = Inr None"
    unfolding two_writes_def oram_def by code_simp
  have st: "stash (fst (snd ?A)) = [Block 2 0 ''CCCC'' False]"
    unfolding two_writes_def oram_def by code_simp
  have "?A = (Inr None, fst (snd ?A), snd (snd ?A))"
    using r Access_result [of "''write''" 2 "''CCCC''" 0 fresh_nonce "run two_writes (oram 3 1 0)"]
    by simp
  from Access_stash_has_no_dummies [OF this] r st show ?thesis
    unfolding list_all_iff by blast
qed

subsection \<open>A path read that fails\<close>

text \<open>
  Claim C1 says that a failed decryption during the path read leaves the position map and
  the stash as they were. Access stores the new leaf before it reads the path, and it
  appends each bucket to the stash as soon as the bucket is decrypted. On the store with
  16 addresses whose node 1 the server has overwritten, a read of address 3 raises
  InvalidTag at node 1; by then address 3 is mapped to the new leaf 1 instead of 0 and
  the stash holds the four dummy blocks of the root.
\<close>

theorem failed_read_changes_client:
  "fst (Access ''read'' 3 [] 1 fresh_nonce (tamper 1 (oram 16 4 0))) = Inl InvalidTag
   \<and> position_map (fst (tamper 1 (oram 16 4 0))) 3 = Some 0
   \<and> position_map (fst (snd (Access ''read'' 3 [] 1 fresh_nonce (tamper 1 (oram 16 4 0))))) 3
       = Some 1
   \<and> stash (fst (tamper 1 (oram 16 4 0))) = []
   \<and> stash (fst (snd (Access ''read'' 3 [] 1 fresh_nonce (tamper 1 (oram 16 4 0)))))
       = replicate 4 (dummy_block 16)"
  unfolding oram_def by code_simp

text \<open>
  InvalidTag can only come from the path read (nothing else decrypts): a call that raises
  it has left the server, the keys and the nonces alone, has stored the new leaf, and has
  extended the stash by the buckets read before the failing node.
\<close>

lemma InvalidTag_comes_from_the_path_read:
  assumes acc: "Access op a d new_x nn (c, s) = (Inl InvalidTag, c', s')"
  shows "s' = s \<and> nonces c' = nonces c \<and> keys c' = keys c
    \<and> position_map c' = (position_map c)(a \<mapsto> new_x)
    \<and> (\<exists>x k. position_map c a = Some x
          \<and> k < length (read_nodes (zfill (srv_L s) (bin_digits x)) 0)
          \<and> read_bucket c s (read_nodes (zfill (srv_L s) (bin_digits x)) 0 ! k) = Inl InvalidTag
          \<and> stash c' = stash c @ concat (map (\<lambda>j. projr (read_bucket c s j))
                (take k (read_nodes (zfill (srv_L s) (bin_digits x)) 0))))"
proof -
  from acc obtain x where x: "position_map c a = Some x"
    by (auto simp: Access_def Let_def split: option.splits)
  let ?c1 = "c\<lparr>position_map := (position_map c)(a \<mapsto> new_x)\<rparr>"
  let ?bits = "zfill (srv_L s) (bin_digits x)"
  have rb: "read_bucket ?c1 s = read_bucket c s" by (rule read_bucket_client) simp_all
  obtain r1 st where rp: "read_path ?c1 s ?bits 0 (stash ?c1) = (r1, st)"
    by (cases "read_path ?c1 s ?bits 0 (stash ?c1)") auto
  show ?thesis
  proof (cases r1)
    case (Inl e)
    with acc x rp have e: "e = InvalidTag" and c': "c' = ?c1\<lparr>stash := st\<rparr>" and s': "s' = s"
      by (auto simp: Access_def Let_def)
    from read_path_failure [of ?c1 s ?bits 0 "stash ?c1" e st] rp Inl
    obtain k where "k < length (read_nodes ?bits 0)"
      "read_bucket c s (read_nodes ?bits 0 ! k) = Inl e"
      "st = stash c @ concat (map (\<lambda>j. projr (read_bucket c s j)) (take k (read_nodes ?bits 0)))"
      by (auto simp: rb)
    with e c' s' x show ?thesis by auto
  next
    case (Inr u)
    with acc x rp have False
      by (auto simp: Access_def Let_def split: sum.splits prod.splits
          dest: update_stash_error write_path_error)
    then show ?thesis ..
  qed
qed

text \<open>
  Claim C1, amended. Let \<open>x\<close> be the leaf of \<open>a\<close> before the call, and let the node \<open>n\<close>, the
  \<open>k\<close>-th node of the path read for \<open>x\<close>, be the first whose bucket cannot be read, because
  its authenticated decryption fails. Then Access aborts with InvalidTag (the error of the
  cipher), whatever the operation, the payload and the new leaf. The server is unchanged
  and so are the client's keys and nonces, but the client state is not: the position map
  holds the new leaf for \<open>a\<close> (and is unchanged elsewhere), and the stash is the stash before
  the call followed by the blocks of the \<open>k\<close> buckets read before \<open>n\<close>.
\<close>

theorem Access_aborts_on_failed_decryption:
  assumes x: "position_map c a = Some x"
    and k: "k < length (read_nodes (zfill (srv_L s) (bin_digits x)) 0)"
    and n: "n = read_nodes (zfill (srv_L s) (bin_digits x)) 0 ! k"
    and range: "n < length (tree s)" "n < length (keys c)" "n < length (nonces c)"
    and fails: "decrypt (keys c ! n) (nonces c ! n) (tree s ! n) (bucket_aad n) = Inl InvalidTag"
    and before: "\<forall>j < k. \<not> isl (read_bucket c s (read_nodes (zfill (srv_L s) (bin_digits x)) 0 ! j))"
  shows "Access op a d new_x nn (c, s) =
           (Inl InvalidTag,
            c\<lparr>position_map := (position_map c)(a \<mapsto> new_x),
              stash := stash c @ concat (map (\<lambda>j. projr (read_bucket c s j))
                         (take k (read_nodes (zfill (srv_L s) (bin_digits x)) 0)))\<rparr>,
            s)"
proof -
  let ?c1 = "c\<lparr>position_map := (position_map c)(a \<mapsto> new_x)\<rparr>"
  let ?nodes = "read_nodes (zfill (srv_L s) (bin_digits x)) 0"
  have rb: "read_bucket ?c1 s = read_bucket c s" by (rule read_bucket_client) simp_all
  from range fails n have "read_bucket c s (?nodes ! k) = Inl InvalidTag"
    by (simp add: read_bucket_def)
  with read_path_first_failure [of k "zfill (srv_L s) (bin_digits x)" 0 ?c1 s InvalidTag "stash c"]
    k before
  have "read_path ?c1 s (zfill (srv_L s) (bin_digits x)) 0 (stash c) =
          (Inl InvalidTag,
           stash c @ concat (map (\<lambda>j. projr (read_bucket c s j)) (take k ?nodes)))"
    by (simp add: rb)
  with x show ?thesis by (simp add: Access_def Let_def)
qed

text \<open>
  The store with 16 addresses whose node 1 the server has overwritten: node 1 is the
  second node read for leaf 0, the root is read first and gives four dummy blocks.
\<close>

theorem Access_aborts_on_failed_decryption_witness:
  "position_map (fst (tamper 1 (oram 16 4 0))) 3 = Some 0
   \<and> read_nodes (zfill (srv_L (snd (tamper 1 (oram 16 4 0)))) (bin_digits 0)) 0 = [0, 1]
   \<and> decrypt (keys (fst (tamper 1 (oram 16 4 0))) ! 1) (nonces (fst (tamper 1 (oram 16 4 0))) ! 1)
        (tree (snd (tamper 1 (oram 16 4 0))) ! 1) (bucket_aad 1) = Inl InvalidTag
   \<and> read_bucket (fst (tamper 1 (oram 16 4 0))) (snd (tamper 1 (oram 16 4 0))) 0
        = Inr (replicate 4 (dummy_block 16))
   \<and> Access ''read'' 3 [] 1 fresh_nonce (tamper 1 (oram 16 4 0)) =
        (Inl InvalidTag,
         (fst (tamper 1 (oram 16 4 0)))
           \<lparr>position_map := (position_map (fst (tamper 1 (oram 16 4 0))))(3 \<mapsto> 1),
            stash := stash (fst (tamper 1 (oram 16 4 0))) @ replicate 4 (dummy_block 16)\<rparr>,
         snd (tamper 1 (oram 16 4 0)))"
proof -
  let ?T = "tamper 1 (oram 16 4 0)"
  let ?c = "fst ?T" and ?s = "snd ?T"
  let ?nodes = "read_nodes (zfill (srv_L ?s) (bin_digits 0)) 0"
  have x: "position_map ?c 3 = Some 0"
    unfolding oram_def by code_simp
  have nodes: "?nodes = [0, 1]"
    unfolding oram_def by code_simp
  have range: "1 < length (tree ?s)" "1 < length (keys ?c)" "1 < length (nonces ?c)"
    unfolding oram_def by code_simp+
  have fails: "decrypt (keys ?c ! 1) (nonces ?c ! 1) (tree ?s ! 1) (bucket_aad 1) = Inl InvalidTag"
    unfolding oram_def by code_simp
  have root: "read_bucket ?c ?s 0 = Inr (replicate 4 (dummy_block 16))"
    unfolding oram_def by code_simp
  have k: "1 < length ?nodes" and n: "1 = ?nodes ! 1"
    using nodes by simp_all
  have before: "\<forall>j < 1. \<not> isl (read_bucket ?c ?s (?nodes ! j))"
    using nodes root by simp
  from Access_aborts_on_failed_decryption [OF x k n range fails before,
      of "''read''" "[]" 1 fresh_nonce]
  have "Access ''read'' 3 [] 1 fresh_nonce (?c, ?s) =
          (Inl InvalidTag,
           ?c\<lparr>position_map := (position_map ?c)(3 \<mapsto> 1),
             stash := stash ?c @ replicate 4 (dummy_block 16)\<rparr>, ?s)"
    using nodes root by simp
  with x nodes fails root show ?thesis by simp
qed

subsection \<open>What a call leaves alone\<close>

text \<open>
  Claim C10. When Access(op, a, data) returns, the position map holds the new leaf for
  \<open>a\<close> and is unchanged at every other address, and every tree node that is not on the
  leaf-to-root path of the old leaf of \<open>a\<close> keeps its ciphertext and its nonce; the tree
  and the nonce list keep their lengths.
\<close>

theorem Access_frame:
  assumes acc: "Access op a d new_x nn (c, s) = (Inr r, c', s')"
    and x: "position_map c a = Some x"
  shows "position_map c' a = Some new_x
    \<and> (\<forall>b. b \<noteq> a \<longrightarrow> position_map c' b = position_map c b)
    \<and> length (tree s') = length (tree s) \<and> length (nonces c') = length (nonces c)
    \<and> (\<forall>i. i \<notin> set (get_path_leaf_to_root x (srv_L s))
          \<longrightarrow> tree s' ! i = tree s ! i \<and> nonces c' ! i = nonces c ! i)"
proof -
  let ?pb = "get_path_leaf_to_root x (srv_L s)"
  let ?c1 = "c\<lparr>position_map := (position_map c)(a \<mapsto> new_x)\<rparr>"
  from acc x obtain st' c3 u where
    w: "write_path nn ?pb [0..<length ?pb] (?c1\<lparr>stash := st'\<rparr>, s) = (Inr u, c3, s')"
    and c': "c' = c3\<lparr>stash := filter (\<lambda>b. \<not> dummy_flag b) (stash c3)\<rparr>"
    by (auto simp: Access_def Let_def split: prod.splits sum.splits)
  have "\<forall>level \<in> set [0..<length ?pb]. level < length ?pb" by simp
  from write_path_frame [OF w this] c' show ?thesis by simp
qed

theorem Access_frame_witness:
  "fst (Access ''write'' 3 ''ABCD'' 1 fresh_nonce (oram 16 4 0)) = Inr None
   \<and> position_map (fst (oram 16 4 0)) 3 = Some 0
   \<and> get_path_leaf_to_root 0 (srv_L (snd (oram 16 4 0))) = [1, 0]
   \<and> position_map (fst (snd (Access ''write'' 3 ''ABCD'' 1 fresh_nonce (oram 16 4 0)))) 3 = Some 1
   \<and> position_map (fst (snd (Access ''write'' 3 ''ABCD'' 1 fresh_nonce (oram 16 4 0)))) 5
       = position_map (fst (oram 16 4 0)) 5
   \<and> tree (snd (snd (Access ''write'' 3 ''ABCD'' 1 fresh_nonce (oram 16 4 0)))) ! 2
       = tree (snd (oram 16 4 0)) ! 2
   \<and> nonces (fst (snd (Access ''write'' 3 ''ABCD'' 1 fresh_nonce (oram 16 4 0)))) ! 2
       = nonces (fst (oram 16 4 0)) ! 2"
proof -
  let ?A = "Access ''write'' 3 ''ABCD'' 1 fresh_nonce (oram 16 4 0)"
  have r: "fst ?A = Inr None"
    unfolding oram_def by code_simp
  have x: "position_map (fst (oram 16 4 0)) 3 = Some 0"
    unfolding oram_def by code_simp
  have p: "get_path_leaf_to_root 0 (srv_L (snd (oram 16 4 0))) = [1, 0]"
    unfolding oram_def by code_simp
  have "Access ''write'' 3 ''ABCD'' 1 fresh_nonce (fst (oram 16 4 0), snd (oram 16 4 0))
          = (Inr None, fst (snd ?A), snd (snd ?A))"
    using r Access_result [of "''write''" 3 "''ABCD''" 1 fresh_nonce "oram 16 4 0"] by simp
  from Access_frame [OF this x] r x p show ?thesis by simp
qed

subsection \<open>Invalid arguments\<close>

text \<open>
  Claim C7 says that a write whose payload is not exactly four bytes long is refused with
  InvalidArgument, without server I/O and without a change of state. Access has no check
  of the payload: on a freshly built store with 16 addresses, writing the three-byte
  payload ABC to address 3 returns normally, remaps the address, rewrites the tree, and a
  later read of the address returns the four bytes ABC0 (the payload followed by the flag
  byte of the 12-byte serialization).
\<close>

theorem short_payload_is_written:
  "length ''ABC'' = 3
   \<and> fst (Access ''write'' 3 ''ABC'' 1 fresh_nonce (oram 16 4 0)) = Inr None
   \<and> position_map (fst (oram 16 4 0)) 3 = Some 0
   \<and> position_map (fst (snd (Access ''write'' 3 ''ABC'' 1 fresh_nonce (oram 16 4 0)))) 3 = Some 1
   \<and> tree (snd (snd (Access ''write'' 3 ''ABC'' 1 fresh_nonce (oram 16 4 0))))
       \<noteq> tree (snd (oram 16 4 0))
   \<and> fst (Access ''read'' 3 [] 1 fresh_nonce (run [(''write'', 3, ''ABC'', 1)] (oram 16 4 0)))
       = Inr (Some ''ABC0'')"
  unfolding oram_def by code_simp

text \<open>
  Claim C7, amended. For a client whose position map has the addresses \<open>0 \<le> a < N\<close>, a
  call of Access with an address outside that range raises KeyError (the lookup
  \<^verbatim>\<open>self.position_map[a]\<close> is the first statement), and neither the client nor the server
  changes.
\<close>

theorem Access_unknown_address:
  assumes "dom (position_map c) = {0..<int (srv_N s)}"
    and "a < 0 \<or> int (srv_N s) \<le> a"
  shows "Access op a d new_x nn (c, s) = (Inl KeyError, c, s)"
proof -
  from assms have "a \<notin> dom (position_map c)" by auto
  then have "position_map c a = None" by (simp add: domIff)
  then show ?thesis by (simp add: Access_def Let_def)
qed

text \<open>Address 16 on the store with the addresses 0 to 15.\<close>

theorem Access_unknown_address_witness:
  "dom (position_map (fst (oram 16 4 0))) = {0..<int (srv_N (snd (oram 16 4 0)))}
   \<and> int (srv_N (snd (oram 16 4 0))) \<le> 16
   \<and> Access ''write'' 16 ''ABCD'' 1 fresh_nonce (oram 16 4 0) = (Inl KeyError, oram 16 4 0)"
proof -
  have "\<not> isl (Client_init 16 4 demo_key demo_nonce (\<lambda>addr. 0))"
    by code_simp
  from oram_init [OF this]
  have i: "Client_init 16 4 demo_key demo_nonce (\<lambda>addr. 0) = Inr (fst (oram 16 4 0), snd (oram 16 4 0))"
    by simp
  note pm = Client_init_position_map [OF i]
  from pm have d: "dom (position_map (fst (oram 16 4 0))) = {0..<int (srv_N (snd (oram 16 4 0)))}"
    by simp
  from pm have n: "(16::int) < 0 \<or> int (srv_N (snd (oram 16 4 0))) \<le> 16"
    by simp
  from Access_unknown_address [OF d n, of "''write''" "''ABCD''" 1 fresh_nonce] d n
  show ?thesis by simp
qed

subsection \<open>The separator inside a block\<close>

text \<open>
  Claim C6 (round trip of the bucket codec). The payload is split at every occurrence of
  the two bytes of the separator, also at one inside a serialized block. A bucket whose
  first block has the four-byte payload A||B is encoded to 58 bytes and decoded to five
  blocks: the first block is cut after the A, and the rest of it (the B and the flag
  byte) is read as a block of its own with address 16944. For buckets of well-formed
  blocks whose serializations do not contain the separator the round trip does hold
  (lemma \<open>codec_roundtrip_separator_free\<close>).
\<close>

theorem separator_in_payload_breaks_codec:
  "codec_roundtrip [Block 0 0 ''A||B'' False, dummy_block 16, dummy_block 16, dummy_block 16]
     = Inr [Block 0 0 ''A'' False, Block 16944 0 [] False,
            dummy_block 16, dummy_block 16, dummy_block 16]"
  by code_simp

text \<open>The first end-to-end scenario of the specification: 16 addresses, buckets of four.\<close>

lemma store_then_retrieve_example:
  "fst (Access ''read'' 3 [] 0 fresh_nonce (run [(''write'', 3, ''ABCD'', 1)] (oram 16 4 0)))
     = Inr (Some ''ABCD'')"
  unfolding oram_def by code_simp

text \<open>
  Claim C2 (read your writes). On the store with 60 addresses and buckets of four (the
  values of Constants.py), writing the four-byte payload |||| to address 3 and reading
  address 3 at once returns the empty string: the block comes back from the tree cut at
  the separators inside it.
\<close>

theorem read_after_write_of_separator:
  "fst (Access ''write'' 3 ''||||'' 0 fresh_nonce (oram 60 4 0)) = Inr None
   \<and> fst (Access ''read'' 3 [] 0 fresh_nonce (run [(''write'', 3, ''||||'', 0)] (oram 60 4 0)))
       = Inr (Some [])"
  unfolding oram_def by code_simp

text \<open>
  Claim C3 (constant ciphertext length). After construction and after the write above
  every node holds 74 bytes (4 * 13 + 2 * 3 + 16). The read that follows brings back three
  pieces of the written block as real blocks with empty payloads and addresses 3, 0 and
  48, all of them in the position map; it evicts them to the leaf node 7, whose
  ciphertext is then 62 bytes long. The length is the claimed one after construction
  (lemma \<open>Client_init_ciphertext_length\<close>) and after every write-back from a stash whose
  blocks all have four-byte payloads (lemma \<open>write_level_ciphertext_length\<close>).
\<close>

theorem ciphertext_length_changes:
  "map ct_length (tree (snd (oram 60 4 0))) = replicate 15 74
   \<and> map ct_length (tree (snd (run [(''write'', 3, ''||||'', 0)] (oram 60 4 0)))) = replicate 15 74
   \<and> fst (Access ''read'' 3 [] 0 fresh_nonce (run [(''write'', 3, ''||||'', 0)] (oram 60 4 0)))
       = Inr (Some [])
   \<and> ct_length (tree (snd (run [(''write'', 3, ''||||'', 0), (''read'', 3, [], 0)] (oram 60 4 0))) ! 7)
       = 62"
  unfolding oram_def by code_simp

subsection \<open>Deleting an address that is not stored\<close>

text \<open>
  Claim C4. When the address is not found, \<^verbatim>\<open>block_idx\<close> is still -1 and the delete branch
  removes \<^verbatim>\<open>self.stash[-1]\<close>, the last block read from the leaf bucket. On the store with
  12 addresses, after four writes that fill the bucket of leaf 0, address 3 reads DDDD;
  deleting address 5, which was never written, returns None and removes the block of
  address 3: the next read of address 3 returns None. In general the branch drops the
  last block of the stash (lemma \<open>delete_not_found\<close>).
\<close>

theorem delete_of_absent_address_removes_block:
  "fst (Access ''read'' 3 [] 0 fresh_nonce (run four_writes (oram 12 4 0))) = Inr (Some ''DDDD'')
   \<and> fst (Access ''delete'' 5 [] 0 fresh_nonce (run four_writes (oram 12 4 0))) = Inr None
   \<and> fst (Access ''read'' 3 [] 0 fresh_nonce
            (run (four_writes @ [(''delete'', 5, [], 0)]) (oram 12 4 0))) = Inr None"
  unfolding oram_def four_writes_def by code_simp

subsection \<open>Trees that are not full\<close>

text \<open>
  Claim C5. With 24 addresses and buckets of four the server has six buckets and height
  2, so the leaves are the nodes 3 to 6 and node 6 is not in the tree. An address mapped
  to leaf 3 has the path 6, 2, 0, and Access on it raises IndexError. A call that returns
  has read only nodes inside the tree (lemma \<open>Access_reads_nodes\<close>).
\<close>

theorem six_buckets_leaf_out_of_range:
  "num_of_buckets (snd (oram 24 4 3)) = 6
   \<and> length (tree (snd (oram 24 4 3))) = 6
   \<and> srv_L (snd (oram 24 4 3)) = 2
   \<and> position_map (fst (oram 24 4 3)) 0 = Some 3
   \<and> get_path_leaf_to_root 3 2 = [6, 2, 0]
   \<and> fst (Access ''read'' 0 [] 3 fresh_nonce (oram 24 4 3)) = Inl IndexError"
  unfolding oram_def by code_simp

text \<open>
  Claim C9. With eight addresses and buckets of four the height is 0 and the path written
  back is the root alone, but the string of bits of leaf 0 padded to width 0 is still the
  one digit 0: the read loop runs once and the path read fetches node 0 and node 1 (at
  height 0 every path read fetches at least two nodes, lemma \<open>read_nodes_height_zero\<close>).
  A server that has overwritten node 1 makes every Access fail.
\<close>

theorem two_buckets_read_for_height_zero:
  "srv_L (snd (oram 8 4 0)) = 0
   \<and> length (tree (snd (oram 8 4 0))) = 2
   \<and> get_path_leaf_to_root 0 0 = [0]
   \<and> zfill 0 (bin_digits 0) = ''0''
   \<and> fst (Access ''read'' 0 [] 0 fresh_nonce (oram 8 4 0)) = Inr None
   \<and> fst (Access ''read'' 0 [] 0 fresh_nonce (tamper 1 (oram 8 4 0))) = Inl InvalidTag"
  unfolding oram_def by code_simp

end
